theory Spec2Isabelle
  imports Main "HOL-Library.Sublist" "HOL-Library.Product_Lexorder"
begin

section \<open>Python strings\<close>

text \<open>
  Text is a list of characters, a character being a code point below 256. The
  operations of \<open>str\<close> that the scanner uses are written out on this range. \<open>lower\<close>
  maps the capital letters to the small ones, 32 code points further on: \<open>A..Z\<close>
  (65..90) and the accented capitals 192..222 but for the multiplication sign 215; it
  leaves every other character alone. White space is the set of characters for which
  \<open>str.isspace\<close> holds: tab, line feed, vertical tab, form feed, carriage return
  (9..13), the four separators 28..31, the blank (32), next line (133) and the
  no-break space (160).
\<close>

definition is_upper_code :: "nat \<Rightarrow> bool" where
  "is_upper_code n = ((65 \<le> n \<and> n \<le> 90) \<or> (192 \<le> n \<and> n \<le> 222 \<and> n \<noteq> 215))"

definition lower_char :: "char \<Rightarrow> char" where
  "lower_char c =
     (let n = (of_char c :: nat) in if is_upper_code n then char_of (n + 32) else c)"

definition lower :: "string \<Rightarrow> string" where
  \<comment> \<open>\<open>s.lower()\<close>\<close>
  "lower s = map lower_char s"

definition is_space :: "char \<Rightarrow> bool" where
  "is_space c =
     (let n = (of_char c :: nat) in
        (9 \<le> n \<and> n \<le> 13) \<or> (28 \<le> n \<and> n \<le> 32) \<or> n = 133 \<or> n = 160)"

definition strip :: "string \<Rightarrow> string" where
  \<comment> \<open>\<open>s.strip()\<close>\<close>
  "strip s = rev (dropWhile is_space (rev (dropWhile is_space s)))"

definition rstrip_char :: "char \<Rightarrow> string \<Rightarrow> string" where
  \<comment> \<open>\<open>s.rstrip(c)\<close> for a single character \<open>c\<close>\<close>
  "rstrip_char c s = rev (dropWhile (\<lambda>d. d = c) (rev s))"

fun contains :: "string \<Rightarrow> string \<Rightarrow> bool" where
  \<comment> \<open>\<open>sub in s\<close>\<close>
  "contains sub [] = (sub = [])"
| "contains sub (c # cs) = (prefix sub (c # cs) \<or> contains sub cs)"

fun split_on :: "char \<Rightarrow> string \<Rightarrow> string list" where
  \<comment> \<open>\<open>s.split(sep)\<close> for a single character \<open>sep\<close>\<close>
  "split_on sep [] = [[]]"
| "split_on sep (c # cs) =
     (if c = sep then [] # split_on sep cs
      else (case split_on sep cs of
              [] \<Rightarrow> [[c]]
            | p # ps \<Rightarrow> (c # p) # ps))"

fun split_ws_from :: "string \<Rightarrow> string \<Rightarrow> string list" where
  \<comment> \<open>the words of a text, with the characters of the word being read in \<open>cur\<close>\<close>
  "split_ws_from cur [] = (if cur = [] then [] else [cur])"
| "split_ws_from cur (c # cs) =
     (if is_space c then (if cur = [] then split_ws_from [] cs else cur # split_ws_from [] cs)
      else split_ws_from (cur @ [c]) cs)"

definition split_ws :: "string \<Rightarrow> string list" where
  \<comment> \<open>\<open>s.split()\<close>: the maximal runs of characters that are not white space\<close>
  "split_ws s = split_ws_from [] s"

datatype py_error = IndexError | OverflowError | ValueError

definition item :: "'a list \<Rightarrow> nat \<Rightarrow> py_error + 'a" where
  \<comment> \<open>\<open>xs[i]\<close> for \<open>i \<ge> 0\<close>: an index past the end raises\<close>
  "item xs i = (if i < length xs then Inr (xs ! i) else Inl IndexError)"


section \<open>Counters and dictionaries\<close>

text \<open>
  A \<open>dict\<close> from keys to integers, and a \<open>collections.Counter\<close>, is the list of its
  items in insertion order, each key once. \<open>dict_set\<close> is \<open>d[k] = v\<close>, \<open>counter_get\<close>
  is \<open>c.get(k, 0)\<close>, \<open>counter_add\<close> is \<open>c[k] = n + c.get(k, 0)\<close>. The keys of the
  scanner's counters are words.
\<close>

type_synonym 'k counts = "('k \<times> int) list"

type_synonym counter = "string counts"

fun dict_set :: "'k counts \<Rightarrow> 'k \<Rightarrow> int \<Rightarrow> 'k counts" where
  "dict_set [] k v = [(k, v)]"
| "dict_set ((k', v') # d) k v =
     (if k' = k then (k', v) # d else (k', v') # dict_set d k v)"

definition counter_get :: "'k counts \<Rightarrow> 'k \<Rightarrow> int" where
  "counter_get c k = (case map_of c k of None \<Rightarrow> 0 | Some v \<Rightarrow> v)"

definition counter_add :: "'k counts \<Rightarrow> 'k \<Rightarrow> int \<Rightarrow> 'k counts" where
  "counter_add c k n = dict_set c k (n + counter_get c k)"

definition dict_of_items :: "('k \<times> int) list \<Rightarrow> 'k counts" where
  \<comment> \<open>\<open>dict(pairs)\<close> and \<open>{k: v for ...}\<close>: a later pair overwrites an earlier one\<close>
  "dict_of_items ps = fold (\<lambda>(k, v) d. dict_set d k v) ps []"

definition update_words :: "counter \<Rightarrow> string list \<Rightarrow> counter" where
  \<comment> \<open>\<open>Counter.update(iterable)\<close>: one more for every element\<close>
  "update_words c ws = fold (\<lambda>w c'. counter_add c' w 1) ws c"

definition update_counts :: "'k counts \<Rightarrow> 'k counts \<Rightarrow> 'k counts" where
  \<comment> \<open>\<open>Counter.update(mapping)\<close>: the mapping's counts are added\<close>
  "update_counts c m = fold (\<lambda>(k, n) c'. counter_add c' k n) m c"


section \<open>The keyword scanner\<close>

subsection \<open>Records of the feed\<close>

text \<open>
  A value of a JSON record is a string, or something else (null, a number, a boolean,
  an array, an object). Of a value that is not a string the scanner can observe two
  things only: its rendering by \<open>str\<close> inside the f-string, and its truth value; every
  method of \<open>str\<close> called on it raises. \<open>JNonStr r t\<close> holds both.
  A line of the stream is not JSON at all, or JSON that is not an object, or an object.
\<close>

datatype jval = JStr string | JNonStr string bool

definition JNull :: jval where
  \<comment> \<open>JSON \<open>null\<close>, Python's \<open>None\<close>\<close>
  "JNull = JNonStr ''None'' False"

fun py_str :: "jval \<Rightarrow> string" where
  "py_str (JStr s) = s"
| "py_str (JNonStr r t) = r"

fun truthy :: "jval \<Rightarrow> bool" where
  "truthy (JStr s) = (s \<noteq> [])"
| "truthy (JNonStr r t) = t"

datatype line = NotJSON | NotObject | Object "string \<rightharpoonup> jval"

definition get :: "(string \<rightharpoonup> jval) \<Rightarrow> string \<Rightarrow> jval" where
  \<comment> \<open>\<open>record.get(key, '')\<close>\<close>
  "get r k = (case r k of None \<Rightarrow> JStr [] | Some v \<Rightarrow> v)"

record mention =
  m_date :: jval
  m_url :: string
  m_domain :: string
  m_keywords :: "string list"
  m_context :: string
  m_ngram :: string

subsection \<open>The streamer\<close>

definition DEFAULT_KEYWORDS :: "string list" where
  "DEFAULT_KEYWORDS = [''uncertainty'']"

definition GDELT_BASE_URL :: string where
  "GDELT_BASE_URL = ''http://data.gdeltproject.org/gdeltv3/webngrams''"

record streamer =
  s_keywords :: "string list"
  s_target_domains :: "string list option"
  s_base_url :: string

definition init :: "string list option \<Rightarrow> string list option \<Rightarrow> string \<Rightarrow> streamer" where
  \<comment> \<open>\<open>__init__\<close>: \<open>keywords or DEFAULT_KEYWORDS\<close> takes the default for \<open>None\<close> and for \<open>[]\<close>\<close>
  "init kws doms url =
     \<lparr> s_keywords = map lower (case kws of None \<Rightarrow> DEFAULT_KEYWORDS
                               | Some ks \<Rightarrow> if ks = [] then DEFAULT_KEYWORDS else ks),
       s_target_domains = doms,
       s_base_url = rstrip_char CHR ''/'' url \<rparr>"

subsection \<open>One record\<close>

definition keyword_test :: "string \<Rightarrow> string \<Rightarrow> bool" where
  \<comment> \<open>the condition of the keyword loop, for the keyword \<open>kw\<close> and the lowercased n-gram\<close>
  "keyword_test kw ngram =
     (let kw_lower = lower kw in
        (\<not> contains '' '' kw_lower \<and> ngram = kw_lower) \<or>
        (contains '' '' kw_lower \<and> contains kw_lower ngram))"

fun match_keywords :: "string list \<Rightarrow> string \<Rightarrow> string list" where
  \<comment> \<open>the keyword loop: \<open>matched_keywords\<close> when it ends; \<open>break\<close> leaves at the first match\<close>
  "match_keywords [] ngram = []"
| "match_keywords (kw # kws) ngram =
     (if keyword_test kw ngram then [kw] else match_keywords kws ngram)"

definition extract_domain :: "string \<Rightarrow> py_error + string" where
  "extract_domain article_url =
     (if contains ''//'' article_url then item (split_on CHR ''/'' article_url) 2
      else item (split_on CHR ''/'' article_url) 0)"

definition STOPWORDS :: "string list" where
  "STOPWORDS = [''this'', ''that'', ''with'', ''from'', ''have'', ''been'', ''will'', ''would'',
     ''could'', ''should'', ''their'', ''about'', ''there'', ''these'', ''those'', ''they'',
     ''what'', ''when'', ''where'', ''which'', ''while'', ''your'']"

definition context_words :: "string list \<Rightarrow> string \<Rightarrow> string \<Rightarrow> string list" where
  \<comment> \<open>\<open>filtered_words\<close>, for string \<open>pre\<close> and \<open>post\<close>\<close>
  "context_words kws pre post =
     (let pre_words = map lower (filter (\<lambda>w. length w > 3) (split_ws pre));
          post_words = map lower (filter (\<lambda>w. length w > 3) (split_ws post));
          all_words = pre_words @ post_words;
          stopwords = STOPWORDS @ map lower kws
      in filter (\<lambda>w. w \<notin> set stopwords) all_words)"

definition build_context :: "jval \<Rightarrow> string \<Rightarrow> jval \<Rightarrow> string" where
  \<comment> \<open>the \<open>context\<close> entry of a mention\<close>
  "build_context pre ngram post =
     (let full_context = strip (py_str pre @ '' '' @ ngram @ '' '' @ py_str post)
      in if full_context \<noteq> [] then take 500 full_context else [])"

text \<open>
  The body of the loop over the lines, as a function of the two accumulators
  (\<open>uncertainty_mentions\<close>, \<open>co_occurring_terms\<close>). It returns them as they are when the
  body ends, together with the exception that ended it, if one did: either handler of
  the source logs and goes on to the next line, so what the body had already appended
  stays. \<open>continue\<close> ends the body with no exception.
\<close>

datatype line_error = JSONDecodeError | OtherException

type_synonym scan_state = "mention list \<times> counter"

definition emit_mention ::
  "string list \<Rightarrow> (string \<rightharpoonup> jval) \<Rightarrow> string \<Rightarrow> string \<Rightarrow> string \<Rightarrow> string list \<Rightarrow>
     scan_state \<Rightarrow> line_error option \<times> scan_state" where
  \<comment> \<open>the branch \<open>if matched_keywords:\<close>\<close>
  "emit_mention kws record article_url domain ngram matched_keywords st =
     (let pre = get record ''pre'';
          post = get record ''post'';
          m = \<lparr> m_date = get record ''date'',
                m_url = article_url,
                m_domain = domain,
                m_keywords = matched_keywords,
                m_context = build_context pre ngram post,
                m_ngram = ngram \<rparr>;
          st' = (fst st @ [m], snd st)
      in if truthy pre \<or> truthy post then
           (case (pre, post) of
              (JStr p, JStr q) \<Rightarrow>
                (None, (fst st', update_words (snd st') (context_words kws p q)))
            | _ \<Rightarrow> (Some OtherException, st'))
         else (None, st'))"

definition scan_ngram ::
  "string list \<Rightarrow> (string \<rightharpoonup> jval) \<Rightarrow> string \<Rightarrow> string \<Rightarrow> scan_state \<Rightarrow>
     line_error option \<times> scan_state" where
  \<comment> \<open>from \<open>ngram = record.get('ngram', '').lower()\<close> on\<close>
  "scan_ngram kws record article_url domain st =
     (case get record ''ngram'' of
        JNonStr r t \<Rightarrow> (Some OtherException, st)
      | JStr g \<Rightarrow>
          (let ngram = lower g;
               matched_keywords = match_keywords kws ngram
           in if matched_keywords = [] then (None, st)
              else emit_mention kws record article_url domain ngram matched_keywords st))"

definition process_record ::
  "string list \<Rightarrow> (string \<rightharpoonup> jval) \<Rightarrow> scan_state \<Rightarrow> line_error option \<times> scan_state" where
  "process_record kws record st =
     (if get record ''lang'' \<noteq> JStr ''en'' then (None, st)
      else
        (case get record ''url'' of
           JNonStr r t \<Rightarrow> (if \<not> t then (None, st) else (Some OtherException, st))
         | JStr article_url \<Rightarrow>
             (if article_url = [] then (None, st)
              else
                (case extract_domain article_url of
                   Inl e \<Rightarrow> (Some OtherException, st)
                 | Inr domain \<Rightarrow> scan_ngram kws record article_url domain st))))"

definition process_line :: "string list \<Rightarrow> line \<Rightarrow> scan_state \<Rightarrow> line_error option \<times> scan_state" where
  "process_line kws l st =
     (case l of
        NotJSON \<Rightarrow> (Some JSONDecodeError, st)
      | NotObject \<Rightarrow> (Some OtherException, st)
      | Object record \<Rightarrow> process_record kws record st)"

fun process_lines :: "string list \<Rightarrow> line list \<Rightarrow> scan_state \<Rightarrow> scan_state" where
  \<comment> \<open>\<open>for line in f\<close>\<close>
  "process_lines kws [] st = st"
| "process_lines kws (l # ls) st = process_lines kws ls (snd (process_line kws l st))"

text \<open>
  A line on which the body of the loop raises before it has appended a mention: seen on
  the empty accumulators, the body ends with an exception and no mention.
\<close>

definition raises_before_mention :: "string list \<Rightarrow> line \<Rightarrow> bool" where
  "raises_before_mention kws l =
     (fst (process_line kws l ([], [])) \<noteq> None \<and> fst (snd (process_line kws l ([], []))) = [])"


subsection \<open>One file of the feed\<close>

text \<open>
  The calendar day of a \<open>datetime\<close> is held as its proleptic Gregorian ordinal
  (\<open>toordinal()\<close>, from 1 for 0001-01-01 to \<open>MAXORDINAL\<close> for 9999-12-31), next to the
  time of day. Adding a day past the last one raises \<open>OverflowError\<close>.
\<close>

record datetime =
  ordinal :: nat
  hour :: nat
  minute :: nat
  second :: nat
  microsecond :: nat

definition MAXORDINAL :: nat where
  "MAXORDINAL = 3652059"

definition dt_le :: "datetime \<Rightarrow> datetime \<Rightarrow> bool" where
  \<comment> \<open>\<open>a <= b\<close>\<close>
  "dt_le a b =
     ((ordinal a, hour a, minute a, second a, microsecond a)
        \<le> (ordinal b, hour b, minute b, second b, microsecond b))"

definition add_days :: "datetime \<Rightarrow> nat \<Rightarrow> py_error + datetime" where
  \<comment> \<open>\<open>d + timedelta(days=n)\<close>\<close>
  "add_days d n =
     (if ordinal d + n \<le> MAXORDINAL then Inr (d\<lparr>ordinal := ordinal d + n\<rparr>)
      else Inl OverflowError)"

text \<open>
  What lies outside the program: the formatting of a time stamp by \<open>strftime\<close> with the
  pattern of the feed's file names, the answer of \<open>requests.get\<close> to a URL, and the
  local file at a path. A gzip stream gives its lines, or gives some lines and then
  fails; a stream that fails is left by the exception, so its lines are not kept here.
\<close>

datatype gzip_stream = Lines "line list" | Corrupt

datatype http_result = RequestException | Response nat gzip_stream

datatype file_result = OSError | Opened gzip_stream

record world =
  strftime :: "datetime \<Rightarrow> string"
  requests_get :: "string \<Rightarrow> http_result"
  open_rb :: "string \<Rightarrow> file_result"

definition get_ngrams_url_for_date :: "world \<Rightarrow> streamer \<Rightarrow> datetime \<Rightarrow> string" where
  "get_ngrams_url_for_date w self date_time = s_base_url self @ ''/'' @ strftime w date_time"

datatype file_error = RequestError | OtherError

definition try_process_ngram_file ::
  "world \<Rightarrow> streamer \<Rightarrow> datetime \<Rightarrow> file_error + (scan_state option)" where
  \<comment> \<open>the body of the outer \<open>try\<close>: an exception, or the value of the \<open>return\<close> it reaches
     (\<open>None\<close> stands for the early \<open>return [], Counter()\<close> on a status other than 200)\<close>
  "try_process_ngram_file w self date_time =
     (let url = get_ngrams_url_for_date w self date_time in
        if prefix ''http'' url then
          (case requests_get w url of
             RequestException \<Rightarrow> Inl RequestError
           | Response status_code content \<Rightarrow>
               if status_code \<noteq> 200 then Inr None
               else (case content of
                       Corrupt \<Rightarrow> Inl OtherError
                     | Lines ls \<Rightarrow> Inr (Some (process_lines (s_keywords self) ls ([], [])))))
        else
          (case open_rb w url of
             OSError \<Rightarrow> Inl OtherError
           | Opened content \<Rightarrow>
               (case content of
                  Corrupt \<Rightarrow> Inl OtherError
                | Lines ls \<Rightarrow> Inr (Some (process_lines (s_keywords self) ls ([], []))))))"

definition process_ngram_file :: "world \<Rightarrow> streamer \<Rightarrow> datetime \<Rightarrow> scan_state" where
  \<comment> \<open>both handlers of the outer \<open>try\<close> return \<open>[], Counter()\<close>\<close>
  "process_ngram_file w self date_time =
     (case try_process_ngram_file w self date_time of
        Inl RequestError \<Rightarrow> ([], [])
      | Inl OtherError \<Rightarrow> ([], [])
      | Inr None \<Rightarrow> ([], [])
      | Inr (Some result) \<Rightarrow> result)"

subsection \<open>The date-range driver\<close>

text \<open>
  The state of the \<open>while\<close> loop is \<open>current_date\<close>, \<open>all_mentions\<close> and \<open>all_terms\<close>.
  The loop is written over the scanner it calls, and keeps next to its state the list of
  the time stamps it has called the scanner with, in order, so that the calls can be
  spoken about.
\<close>

type_synonym range_state = "mention list \<times> counter \<times> datetime list"

function date_loop ::
  "(datetime \<Rightarrow> scan_state) \<Rightarrow> datetime \<Rightarrow> datetime \<Rightarrow> range_state \<Rightarrow> py_error + range_state" where
  "date_loop scan end_date current_date (all_mentions, all_terms, calls) =
     (if dt_le current_date end_date then
        let date_time = current_date\<lparr>hour := 0, minute := 1, second := 0, microsecond := 0\<rparr>;
            (mentions, terms) = scan date_time;
            st = (all_mentions @ mentions, update_counts all_terms terms, calls @ [date_time])
        in (case add_days current_date 1 of
              Inl e \<Rightarrow> Inl e
            | Inr next_date \<Rightarrow> date_loop scan end_date next_date st)
      else Inr (all_mentions, all_terms, calls))"
  by pat_completeness auto
termination
  by (relation "measure (\<lambda>(scan, end_date, current_date, st). Suc (ordinal end_date) - ordinal current_date)")
    (auto simp: dt_le_def add_days_def less_eq_prod_def split: if_splits)

definition process_date_range ::
  "world \<Rightarrow> streamer \<Rightarrow> datetime \<Rightarrow> datetime \<Rightarrow> py_error + range_state" where
  "process_date_range w self start_date end_date =
     date_loop (process_ngram_file w self) end_date start_date ([], [], [])"


section \<open>The aggregator\<close>

text \<open>
  A raw output file is read into its rows, or reading it raises and the file is logged
  and left out. The files come in the order \<open>glob\<close> lists them.
\<close>

datatype 'a raw_file = Unreadable | Table "'a list"

fun readable :: "'a raw_file list \<Rightarrow> 'a list list" where
  \<comment> \<open>the tables of the files that could be read\<close>
  "readable [] = []"
| "readable (Unreadable # fs) = readable fs"
| "readable (Table rows # fs) = rows # readable fs"

subsection \<open>Mentions\<close>







subsection \<open>Word counts\<close>


fun add_files :: "('k \<times> int) raw_file list \<Rightarrow> 'k counts \<Rightarrow> 'k counts" where
  \<comment> \<open>the loop over the files: \<open>word_counts.update(file_counts)\<close> for every file read\<close>
  "add_files [] word_counts = word_counts"
| "add_files (Unreadable # fs) word_counts = add_files fs word_counts"
| "add_files (Table rows # fs) word_counts =
     add_files fs (update_counts word_counts (dict_of_items rows))"

definition sort_descending :: "'k counts \<Rightarrow> 'k counts" where
  \<comment> \<open>by the count, largest first\<close>
  "sort_descending c = sort_key (\<lambda>(w, n). - n) c"


definition aggregate_wordcloud :: "(string \<times> int) raw_file list \<Rightarrow> counter" where
  "aggregate_wordcloud wordcloud_files =
     (if wordcloud_files = [] then []
      else
        (let word_counts = add_files wordcloud_files [] in
           if word_counts = [] then [] else sort_descending word_counts))"


section \<open>Properties of the string operations\<close>

lemma contains_iff: "contains sub s \<longleftrightarrow> (\<exists>p q. s = p @ sub @ q)"
proof (induction s)
  case Nil
  then show ?case by auto
next
  case (Cons c cs)
  show ?case
  proof
    assume "contains sub (c # cs)"
    then consider "prefix sub (c # cs)" | "contains sub cs" by auto
    then show "\<exists>p q. c # cs = p @ sub @ q"
    proof cases
      case 1
      then obtain q where "c # cs = sub @ q" by (auto simp: prefix_def)
      then have "c # cs = [] @ sub @ q" by simp
      then show ?thesis by blast
    next
      case 2
      with Cons.IH obtain p q where "cs = p @ sub @ q" by blast
      then have "c # cs = (c # p) @ sub @ q" by simp
      then show ?thesis by blast
    qed
  next
    assume "\<exists>p q. c # cs = p @ sub @ q"
    then obtain p q where pq: "c # cs = p @ sub @ q" by blast
    show "contains sub (c # cs)"
    proof (cases p)
      case Nil
      with pq have "prefix sub (c # cs)" by (simp add: prefix_def)
      then show ?thesis by simp
    next
      case (Cons a p')
      with pq have "cs = p' @ sub @ q" by simp
      with Cons.IH have "contains sub cs" by blast
      then show ?thesis by simp
    qed
  qed
qed

lemma contains_single: "contains [c] s \<longleftrightarrow> c \<in> set s"
  by (induction s) auto

lemma of_char_lower_char:
  "(of_char (lower_char c) :: nat) =
     (if is_upper_code (of_char c) then of_char c + 32 else of_char c)"
  by (simp add: lower_char_def Let_def is_upper_code_def)

lemma lower_char_idem: "lower_char (lower_char c) = lower_char c"
proof -
  have "(of_char (lower_char (lower_char c)) :: nat) = of_char (lower_char c)"
    by (simp add: of_char_lower_char) (simp add: is_upper_code_def)
  then show ?thesis by (simp only: of_char_eq_iff)
qed

lemma lower_idem: "lower (lower s) = lower s"
  by (simp add: lower_def lower_char_idem)

lemma lower_char_space: "lower_char c = CHR '' '' \<longleftrightarrow> c = CHR '' ''"
proof -
  have "lower_char c = CHR '' '' \<longleftrightarrow> (of_char (lower_char c) :: nat) = of_char CHR '' ''"
    by (simp only: of_char_eq_iff)
  also have "\<dots> \<longleftrightarrow> (of_char c :: nat) = of_char CHR '' ''"
    by (simp add: of_char_lower_char) (simp add: is_upper_code_def)
  also have "\<dots> \<longleftrightarrow> c = CHR '' ''"
    by (simp only: of_char_eq_iff)
  finally show ?thesis .
qed

lemma space_in_lower: "CHR '' '' \<in> set (lower s) \<longleftrightarrow> CHR '' '' \<in> set s"
proof -
  have "CHR '' '' \<in> set (lower s) \<longleftrightarrow> (\<exists>c \<in> set s. CHR '' '' = lower_char c)"
    by (simp add: lower_def image_iff)
  also have "\<dots> \<longleftrightarrow> (\<exists>c \<in> set s. c = CHR '' '')"
    by (metis lower_char_space)
  finally show ?thesis by simp
qed

lemma last_dropWhile: "dropWhile P xs \<noteq> [] \<Longrightarrow> last (dropWhile P xs) = last xs"
  by (induction xs) (auto split: if_splits)

lemma strip_decomposition:
  "\<exists>a b. s = a @ strip s @ b \<and> (\<forall>c \<in> set a. is_space c) \<and> (\<forall>c \<in> set b. is_space c)"
proof -
  let ?t = "dropWhile is_space s"
  have 1: "s = takeWhile is_space s @ ?t" by simp
  have "strip s @ rev (takeWhile is_space (rev ?t)) =
          rev (takeWhile is_space (rev ?t) @ dropWhile is_space (rev ?t))"
    by (simp add: strip_def del: takeWhile_dropWhile_id)
  also have "\<dots> = ?t" by simp
  finally have 2: "?t = strip s @ rev (takeWhile is_space (rev ?t))" by simp
  from 1 2 have "s = takeWhile is_space s @ strip s @ rev (takeWhile is_space (rev ?t))"
    by simp
  moreover have "\<forall>c \<in> set (takeWhile is_space s). is_space c"
    by (auto dest: set_takeWhileD)
  moreover have "\<forall>c \<in> set (rev (takeWhile is_space (rev ?t))). is_space c"
    by (auto dest: set_takeWhileD)
  ultimately show ?thesis by blast
qed

lemma strip_ends:
  "strip s = [] \<or> (\<not> is_space (hd (strip s)) \<and> \<not> is_space (last (strip s)))"
proof (cases "strip s = []")
  case True
  then show ?thesis by simp
next
  case False
  let ?t = "dropWhile is_space s"
  let ?u = "dropWhile is_space (rev ?t)"
  from False have u: "?u \<noteq> []" by (simp add: strip_def)
  have t: "?t \<noteq> []"
  proof
    assume e: "?t = []"
    from u show False unfolding e by simp
  qed
  have "last (strip s) = hd ?u" using u by (simp add: strip_def last_rev)
  moreover have "\<not> is_space (hd ?u)" using u by (rule hd_dropWhile)
  moreover have "hd (strip s) = last ?u" using u by (simp add: strip_def hd_rev)
  moreover have "last ?u = last (rev ?t)" using u by (rule last_dropWhile)
  moreover have "last (rev ?t) = hd ?t" using t by (simp add: last_rev)
  moreover have "\<not> is_space (hd ?t)" using t by (rule hd_dropWhile)
  ultimately show ?thesis by simp
qed

lemma length_filter_concat_replicate:
  "length (filter P (concat (replicate n xs))) = n * length (filter P xs)"
  by (induction n) simp_all

lemma keyword_test_lower:
  "keyword_test (lower kw) ngram \<longleftrightarrow>
     (if CHR '' '' \<in> set kw then contains (lower kw) ngram else ngram = lower kw)"
  by (simp add: keyword_test_def Let_def lower_idem contains_single space_in_lower)


section \<open>Properties of the keyword scanner\<close>

subsection \<open>The keyword test\<close>

text \<open>
  C1. The streamer holds its keywords lowercased, and the n-gram of a record is
  lowercased before it is tested. A keyword with no blank in it matches exactly when the
  lowercased n-gram equals the lowercased keyword; a keyword with a blank in it matches
  exactly when the lowercased keyword occurs in the lowercased n-gram as a substring.
\<close>

theorem keyword_match_rule:
  "(CHR '' '' \<notin> set kw \<longrightarrow>
      (keyword_test (lower kw) (lower g) \<longleftrightarrow> lower g = lower kw)) \<and>
   (CHR '' '' \<in> set kw \<longrightarrow>
      (keyword_test (lower kw) (lower g) \<longleftrightarrow> (\<exists>p q. lower g = p @ lower kw @ q)))"
proof (cases "CHR '' '' \<in> set kw")
  case True
  then show ?thesis by (simp add: keyword_test_lower contains_iff)
next
  case False
  then show ?thesis by (simp add: keyword_test_lower)
qed

theorem keyword_match_rule_witness:
  "keyword_test (lower ''Uncertainty'') (lower ''UNCERTAINTY'') \<and>
   \<not> keyword_test (lower ''Uncertainty'') (lower ''uncertainty principle'') \<and>
   keyword_test (lower ''Trade War'') (lower ''a TRADE war looms'')"
proof -
  have a: "CHR '' '' \<notin> set ''Uncertainty''" by simp
  have b: "CHR '' '' \<in> set ''Trade War''" by simp
  have c: "lower ''a TRADE war looms'' = ''a '' @ lower ''Trade War'' @ '' looms''"
    by code_simp
  have d: "lower ''UNCERTAINTY'' = lower ''Uncertainty''"
    by code_simp
  have e: "lower ''uncertainty principle'' \<noteq> lower ''Uncertainty''"
    by code_simp
  from a d keyword_match_rule [of "''Uncertainty''" "''UNCERTAINTY''"]
  have 1: "keyword_test (lower ''Uncertainty'') (lower ''UNCERTAINTY'')"
    by blast
  from a e keyword_match_rule [of "''Uncertainty''" "''uncertainty principle''"]
  have 2: "\<not> keyword_test (lower ''Uncertainty'') (lower ''uncertainty principle'')"
    by blast
  from b c keyword_match_rule [of "''Trade War''" "''a TRADE war looms''"]
  have 3: "keyword_test (lower ''Trade War'') (lower ''a TRADE war looms'')"
    by blast
  from 1 2 3 show ?thesis by blast
qed



subsection \<open>The domain of an article\<close>

lemma length_split_on: "length (split_on sep s) = Suc (count_list s sep)"
  by (induction s) (auto split: list.splits)

lemma count_dslash: "contains ''//'' s \<Longrightarrow> 2 \<le> count_list s CHR ''/''"
  by (auto simp: contains_iff)


lemma extract_domain_Inr: "\<exists>d. extract_domain u = Inr d"
proof (cases "contains ''//'' u")
  case True
  then have "2 \<le> count_list u CHR ''/''" by (rule count_dslash)
  with True show ?thesis by (simp add: extract_domain_def item_def length_split_on)
next
  case False
  then show ?thesis by (simp add: extract_domain_def item_def length_split_on)
qed

text \<open>
  C9. Taking the domain out of an article URL never fails. A URL that contains \<open>//\<close>
  splits at \<open>/\<close> into three parts or more, so the part at index 2 is there; for any
  other URL the part at index 0 is taken, and a split has one part at least.
\<close>

theorem extract_domain_total:
  "(contains ''//'' article_url \<longrightarrow>
      3 \<le> length (split_on CHR ''/'' article_url) \<and>
      extract_domain article_url = Inr (split_on CHR ''/'' article_url ! 2)) \<and>
   (\<not> contains ''//'' article_url \<longrightarrow>
      1 \<le> length (split_on CHR ''/'' article_url) \<and>
      extract_domain article_url = Inr (split_on CHR ''/'' article_url ! 0))"
proof (cases "contains ''//'' article_url")
  case True
  then have "2 \<le> count_list article_url CHR ''/''" by (rule count_dslash)
  then have "3 \<le> length (split_on CHR ''/'' article_url)"
    by (simp add: length_split_on)
  with True show ?thesis by (simp add: extract_domain_def item_def)
next
  case False
  then show ?thesis by (simp add: extract_domain_def item_def length_split_on)
qed

theorem extract_domain_total_witness:
  "extract_domain ''http://example.com/a'' = Inr ''example.com'' \<and>
   extract_domain ''example.com/a'' = Inr ''example.com''"
proof -
  have a: "contains ''//'' ''http://example.com/a''" by code_simp
  have b: "\<not> contains ''//'' ''example.com/a''" by code_simp
  have c: "split_on CHR ''/'' ''http://example.com/a'' ! 2 = ''example.com''" by code_simp
  have d: "split_on CHR ''/'' ''example.com/a'' ! 0 = ''example.com''" by code_simp
  from a c extract_domain_total [of "''http://example.com/a''"]
  have 1: "extract_domain ''http://example.com/a'' = Inr ''example.com''" by simp
  from b d extract_domain_total [of "''example.com/a''"]
  have 2: "extract_domain ''example.com/a'' = Inr ''example.com''" by simp
  from 1 2 show ?thesis by blast
qed

subsection \<open>What one record appends\<close>

lemma match_keywords_find:
  "match_keywords kws ngram =
     (case find (\<lambda>k. keyword_test k ngram) kws of None \<Rightarrow> [] | Some kw \<Rightarrow> [kw])"
  by (induction kws) auto

lemma emit_mention_mentions:
  "fst (snd (emit_mention kws record u d ngram mk st)) =
     fst st @ [\<lparr> m_date = get record ''date'', m_url = u, m_domain = d, m_keywords = mk,
                  m_context = build_context (get record ''pre'') ngram (get record ''post''),
                  m_ngram = ngram \<rparr>]"
  by (simp add: emit_mention_def Let_def split: jval.splits)

lemma scan_ngram_mentions:
  "fst (snd (scan_ngram kws record u d st)) = fst st \<or>
   (\<exists>g kw. get record ''ngram'' = JStr g \<and>
      find (\<lambda>k. keyword_test k (lower g)) kws = Some kw \<and>
      fst (snd (scan_ngram kws record u d st)) =
        fst st @ [\<lparr> m_date = get record ''date'', m_url = u, m_domain = d, m_keywords = [kw],
                     m_context = build_context (get record ''pre'') (lower g) (get record ''post''),
                     m_ngram = lower g \<rparr>])"
proof (cases "get record ''ngram''")
  case (JStr g)
  show ?thesis
  proof (cases "find (\<lambda>k. keyword_test k (lower g)) kws")
    case None
    with JStr show ?thesis by (simp add: scan_ngram_def match_keywords_find)
  next
    case (Some kw)
    with JStr show ?thesis
      by (simp add: scan_ngram_def match_keywords_find emit_mention_mentions)
  qed
next
  case (JNonStr r t)
  then show ?thesis by (simp add: scan_ngram_def)
qed

lemma process_record_mentions:
  "fst (snd (process_record kws record st)) = fst st \<or>
   (\<exists>u d g kw. get record ''url'' = JStr u \<and> extract_domain u = Inr d \<and>
      get record ''ngram'' = JStr g \<and>
      find (\<lambda>k. keyword_test k (lower g)) kws = Some kw \<and>
      fst (snd (process_record kws record st)) =
        fst st @ [\<lparr> m_date = get record ''date'', m_url = u, m_domain = d, m_keywords = [kw],
                     m_context = build_context (get record ''pre'') (lower g) (get record ''post''),
                     m_ngram = lower g \<rparr>])"
proof (cases "get record ''lang'' = JStr ''en''")
  case False
  then show ?thesis by (simp add: process_record_def)
next
  case en: True
  show ?thesis
  proof (cases "get record ''url''")
    case (JNonStr r t)
    with en show ?thesis by (simp add: process_record_def)
  next
    case (JStr u)
    show ?thesis
    proof (cases "u = []")
      case True
      with en JStr show ?thesis by (simp add: process_record_def)
    next
      case False
      show ?thesis
      proof (cases "extract_domain u")
        case (Inl e)
        with en JStr False show ?thesis by (simp add: process_record_def)
      next
        case (Inr d)
        with en JStr False have eq: "process_record kws record st = scan_ngram kws record u d st"
          by (simp add: process_record_def)
        from scan_ngram_mentions [of kws "record" u d st] JStr Inr show ?thesis
          unfolding eq by auto
      qed
    qed
  qed
qed

lemma build_context_take:
  "build_context pre ngram post = take 500 (strip (py_str pre @ '' '' @ ngram @ '' '' @ py_str post))"
  by (simp add: build_context_def Let_def)


lemma process_record_matched:
  assumes "get record ''lang'' = JStr ''en''" and "get record ''url'' = JStr u" and "u \<noteq> []"
    and "get record ''ngram'' = JStr g" and "match_keywords kws (lower g) \<noteq> []"
  shows "fst (snd (process_record kws record st)) \<noteq> fst st"
proof -
  obtain d where d: "extract_domain u = Inr d" using extract_domain_Inr by blast
  with assms show ?thesis
    by (simp add: process_record_def scan_ngram_def emit_mention_mentions Let_def)
qed

text \<open>
  C5, as the code has it. When a record is matched, the mention it appends carries as
  its context the \<open>pre\<close> field, the lowercased n-gram (the mention's \<open>ngram\<close>) and
  the \<open>post\<close> field joined by single blanks, with the white space at both ends taken
  off (what is taken off is white space only, and what is left neither begins nor ends
  with white space), cut to 500 characters: a context of 500 characters or fewer is
  kept as it is, a longer one is cut to exactly 500.
\<close>

theorem mention_context:
  assumes "fst (snd (process_record kws record st)) \<noteq> fst st"
  shows "\<exists>m g a full_context b.
           fst (snd (process_record kws record st)) = fst st @ [m] \<and>
           get record ''ngram'' = JStr g \<and> m_ngram m = lower g \<and>
           py_str (get record ''pre'') @ '' '' @ lower g @ '' '' @ py_str (get record ''post'') =
             a @ full_context @ b \<and>
           (\<forall>c \<in> set a. is_space c) \<and> (\<forall>c \<in> set b. is_space c) \<and>
           (full_context = [] \<or>
              (\<not> is_space (hd full_context) \<and> \<not> is_space (last full_context))) \<and>
           m_context m = take 500 full_context \<and>
           length (m_context m) \<le> 500 \<and>
           (length full_context \<le> 500 \<longrightarrow> m_context m = full_context) \<and>
           (500 < length full_context \<longrightarrow> length (m_context m) = 500)"
proof -
  from process_record_mentions [of kws "record" st] assms
  obtain u d g kw where g: "get record ''ngram'' = JStr g" and
    m: "fst (snd (process_record kws record st)) =
        fst st @ [\<lparr> m_date = get record ''date'', m_url = u, m_domain = d, m_keywords = [kw],
                     m_context = build_context (get record ''pre'') (lower g) (get record ''post''),
                     m_ngram = lower g \<rparr>]"
    by blast
  let ?joined = "py_str (get record ''pre'') @ '' '' @ lower g @ '' '' @ py_str (get record ''post'')"
  let ?m = "\<lparr> m_date = get record ''date'', m_url = u, m_domain = d, m_keywords = [kw],
              m_context = build_context (get record ''pre'') (lower g) (get record ''post''),
              m_ngram = lower g \<rparr>"
  from strip_decomposition [of ?joined] obtain a b where
    ab: "?joined = a @ strip ?joined @ b" "\<forall>c \<in> set a. is_space c" "\<forall>c \<in> set b. is_space c"
    by blast
  note ends = strip_ends [of ?joined]
  have ctx: "m_context ?m = take 500 (strip ?joined)"
    by (simp add: build_context_take)
  have len: "length (m_context ?m) \<le> 500" by (simp add: build_context_take)
  have short: "length (strip ?joined) \<le> 500 \<longrightarrow> m_context ?m = strip ?joined"
    by (simp add: build_context_take)
  have long: "500 < length (strip ?joined) \<longrightarrow> length (m_context ?m) = 500"
    by (simp add: build_context_take)
  have ng: "m_ngram ?m = lower g" by simp
  from m g ng ab ends ctx len short long show ?thesis by blast
qed

theorem mention_context_witness:
  "(\<exists>m. fst (snd (process_record [''uncertainty'']
              [''lang'' \<mapsto> JStr ''en'', ''url'' \<mapsto> JStr ''http://example.com/a'',
               ''ngram'' \<mapsto> JStr ''Uncertainty'',
               ''post'' \<mapsto> JStr ''over trade policy  ''] ([], []))) = [m] \<and>
        m_context m = ''uncertainty over trade policy'') \<and>
   (\<exists>m. fst (snd (process_record [''uncertainty'']
              [''lang'' \<mapsto> JStr ''en'', ''url'' \<mapsto> JStr ''http://example.com/a'',
               ''ngram'' \<mapsto> JStr ''uncertainty'',
               ''pre'' \<mapsto> JStr (concat (replicate 130 ''risk ''))] ([], []))) = [m] \<and>
        length (m_context m) = 500)"
proof -
  let ?r1 = "[''lang'' \<mapsto> JStr ''en'', ''url'' \<mapsto> JStr ''http://example.com/a'',
               ''ngram'' \<mapsto> JStr ''Uncertainty'',
               ''post'' \<mapsto> JStr ''over trade policy  '']"
  let ?r2 = "[''lang'' \<mapsto> JStr ''en'', ''url'' \<mapsto> JStr ''http://example.com/a'',
               ''ngram'' \<mapsto> JStr ''uncertainty'',
               ''pre'' \<mapsto> JStr (concat (replicate 130 ''risk ''))]"
  have e1: "fst (snd (process_record [''uncertainty''] ?r1 ([], []))) =
      [\<lparr>m_date = JStr [], m_url = ''http://example.com/a'', m_domain = ''example.com'',
        m_keywords = [''uncertainty''],
        m_context = ''uncertainty over trade policy'',
        m_ngram = ''uncertainty''\<rparr>]"
    by code_simp
  have h1: "fst (snd (process_record [''uncertainty''] ?r1 ([], []))) \<noteq> fst ([], [])"
    by (simp add: e1)
  have k2: "match_keywords [''uncertainty''] (lower ''uncertainty'') \<noteq> []"
    by code_simp
  have h2: "fst (snd (process_record [''uncertainty''] ?r2 ([], []))) \<noteq> fst (([], []) :: scan_state)"
    by (rule process_record_matched [where u = "''http://example.com/a''" and g = "''uncertainty''"];
        (rule k2 | simp add: get_def))
  have f: "filter (\<lambda>c. \<not> is_space c) ''risk '' = ''risk''" by code_simp
  have "length (filter (\<lambda>c. \<not> is_space c) (concat (replicate 130 ''risk ''))) = 130 * 4"
    by (simp only: length_filter_concat_replicate f) simp
  then have l2: "500 < length (filter (\<lambda>c. \<not> is_space c)
              (py_str (get ?r2 ''pre'') @ '' '' @ lower ''uncertainty'' @ '' '' @
               py_str (get ?r2 ''post'')))"
    by (simp add: get_def)
  from mention_context [OF h1] e1 have 1: "\<exists>m. fst (snd (process_record [''uncertainty''] ?r1 ([], []))) = [m] \<and>
        m_context m = ''uncertainty over trade policy''"
    by simp
  from mention_context [OF h2] obtain m g a full_context b where
    m0: "fst (snd (process_record [''uncertainty''] ?r2 ([], []))) =
           fst (([], []) :: scan_state) @ [m]"
    and g: "get ?r2 ''ngram'' = JStr g"
    and dec: "py_str (get ?r2 ''pre'') @ '' '' @ lower g @ '' '' @ py_str (get ?r2 ''post'') =
                a @ full_context @ b"
    and sp: "\<forall>c \<in> set a. is_space c" "\<forall>c \<in> set b. is_space c"
    and c: "500 < length full_context \<longrightarrow> length (m_context m) = 500"
    by blast
  from m0 have m: "fst (snd (process_record [''uncertainty''] ?r2 ([], []))) = [m]" by simp
  from g have "g = ''uncertainty''" by (simp add: get_def)
  with dec l2 have "500 < length (filter (\<lambda>c. \<not> is_space c) (a @ full_context @ b))"
    by simp
  moreover from sp have "filter (\<lambda>c. \<not> is_space c) a = []" "filter (\<lambda>c. \<not> is_space c) b = []"
    by (simp_all add: filter_empty_conv)
  ultimately have "500 < length (filter (\<lambda>c. \<not> is_space c) full_context)" by simp
  moreover have "length (filter (\<lambda>c. \<not> is_space c) full_context) \<le> length full_context"
    by (rule length_filter_le)
  ultimately have "500 < length full_context" by (rule less_le_trans)
  with c have "length (m_context m) = 500" by simp
  with m have 2: "\<exists>m. fst (snd (process_record [''uncertainty''] ?r2 ([], []))) = [m] \<and> length (m_context m) = 500"
    by blast
  from 1 2 show ?thesis by blast
qed

text \<open>
  C5 as stated, with the n-gram of the record in the context, fails for an n-gram with a
  capital letter: the record with \<open>pre\<close> rising, \<open>ngram\<close> Uncertainty and \<open>post\<close>
  ahead gives the context \<open>rising uncertainty ahead\<close>, where the three fields joined
  are \<open>rising Uncertainty ahead\<close>.
\<close>

theorem context_lowercases_ngram_counterexample:
  "fst (snd (process_record [''uncertainty'']
        [''lang'' \<mapsto> JStr ''en'', ''url'' \<mapsto> JStr ''http://example.com/a'',
         ''ngram'' \<mapsto> JStr ''Uncertainty'', ''pre'' \<mapsto> JStr ''rising'',
         ''post'' \<mapsto> JStr ''ahead''] ([], []))) =
     [\<lparr>m_date = JStr [], m_url = ''http://example.com/a'', m_domain = ''example.com'',
       m_keywords = [''uncertainty''], m_context = ''rising uncertainty ahead'',
       m_ngram = ''uncertainty''\<rparr>] \<and>
   take 500 (strip (''rising'' @ '' '' @ ''Uncertainty'' @ '' '' @ ''ahead'')) =
     ''rising Uncertainty ahead'' \<and>
   ''rising uncertainty ahead'' \<noteq> ''rising Uncertainty ahead''"
  by code_simp

subsection \<open>The keywords of a mention\<close>

lemma process_line_mentions:
  "fst (snd (process_line kws l st)) = fst st \<or>
   (\<exists>m kw. fst (snd (process_line kws l st)) = fst st @ [m] \<and> m_keywords m = [kw] \<and>
      find (\<lambda>k. keyword_test k (m_ngram m)) kws = Some kw)"
proof (cases l)
  case (Object r)
  from process_record_mentions [of kws r st] show ?thesis
    unfolding Object process_line_def by (auto simp del: find.simps)
qed (simp_all add: process_line_def)

lemma process_lines_keywords:
  assumes "\<forall>m \<in> set (fst st). \<exists>kw. m_keywords m = [kw] \<and>
             find (\<lambda>k. keyword_test k (m_ngram m)) kws = Some kw"
  shows "\<forall>m \<in> set (fst (process_lines kws ls st)). \<exists>kw. m_keywords m = [kw] \<and>
             find (\<lambda>k. keyword_test k (m_ngram m)) kws = Some kw"
  using assms
proof (induction ls arbitrary: st)
  case Nil
  then show ?case by simp
next
  case (Cons l ls)
  have "\<forall>m \<in> set (fst (snd (process_line kws l st))). \<exists>kw. m_keywords m = [kw] \<and>
             find (\<lambda>k. keyword_test k (m_ngram m)) kws = Some kw"
    using process_line_mentions [of kws l st] Cons.prems by auto
  from Cons.IH [OF this] show ?case by simp
qed


text \<open>
  C8. Every mention the scanner returns carries exactly one keyword in its \<open>keywords\<close>
  field: the first keyword of the streamer's list that passes the test on the mention's
  n-gram. A later keyword that would pass as well is not tested and not recorded.
\<close>

theorem one_keyword_per_mention:
  "\<forall>m \<in> set (fst (process_ngram_file w self date_time)).
     \<exists>kw. m_keywords m = [kw] \<and>
          find (\<lambda>k. keyword_test k (m_ngram m)) (s_keywords self) = Some kw"
proof -
  have lines: "\<And>ls. \<forall>m \<in> set (fst (process_lines (s_keywords self) ls ([], []))).
     \<exists>kw. m_keywords m = [kw] \<and>
          find (\<lambda>k. keyword_test k (m_ngram m)) (s_keywords self) = Some kw"
    by (rule process_lines_keywords) simp
  show ?thesis
    unfolding process_ngram_file_def try_process_ngram_file_def Let_def
    using lines
    by (auto split: http_result.splits file_result.splits gzip_stream.splits simp del: find.simps)
qed

theorem one_keyword_per_mention_witness:
  "map m_keywords
     (fst (process_ngram_file
        \<lparr> strftime = (\<lambda>d. ''20240101000100.webngrams.json.gz''),
          requests_get = (\<lambda>u. Response 200 (Lines
            [Object [''lang'' \<mapsto> JStr ''en'', ''url'' \<mapsto> JStr ''http://example.com/a'',
                     ''ngram'' \<mapsto> JStr ''Economic Policy Uncertainty'']])),
          open_rb = (\<lambda>p. OSError) \<rparr>
        (init (Some [''policy uncertainty'', ''economic policy'']) None GDELT_BASE_URL)
        \<lparr> ordinal = 738886, hour = 0, minute = 1, second = 0, microsecond = 0 \<rparr>))
   = [[''policy uncertainty'']] \<and>
   keyword_test ''policy uncertainty'' ''economic policy uncertainty'' \<and>
   keyword_test ''economic policy'' ''economic policy uncertainty''"
proof -
  let ?w = "\<lparr> strftime = (\<lambda>d. ''20240101000100.webngrams.json.gz''),
          requests_get = (\<lambda>u. Response 200 (Lines
            [Object [''lang'' \<mapsto> JStr ''en'', ''url'' \<mapsto> JStr ''http://example.com/a'',
                     ''ngram'' \<mapsto> JStr ''Economic Policy Uncertainty'']])),
          open_rb = (\<lambda>p. OSError) \<rparr>"
  let ?s = "init (Some [''policy uncertainty'', ''economic policy'']) None GDELT_BASE_URL"
  let ?d = "\<lparr> ordinal = 738886, hour = 0, minute = 1, second = 0, microsecond = 0 \<rparr>"
  let ?m = "\<lparr> m_date = JStr [], m_url = ''http://example.com/a'', m_domain = ''example.com'',
              m_keywords = [''policy uncertainty''], m_context = ''economic policy uncertainty'',
              m_ngram = ''economic policy uncertainty'' \<rparr>"
  have p: "prefix ''http'' (s_base_url ?s)" by code_simp
  have k: "s_keywords ?s = [''policy uncertainty'', ''economic policy'']" by code_simp
  have pl: "process_lines [''policy uncertainty'', ''economic policy'']
      [Object [''lang'' \<mapsto> JStr ''en'', ''url'' \<mapsto> JStr ''http://example.com/a'',
               ''ngram'' \<mapsto> JStr ''Economic Policy Uncertainty'']] ([], []) = ([?m], [])"
    by code_simp
  from p have u: "\<And>w d. prefix ''http'' (get_ngrams_url_for_date w ?s d)"
    by (simp add: get_ngrams_url_for_date_def)
  have ev: "fst (process_ngram_file ?w ?s ?d) = [?m]"
    by (simp add: process_ngram_file_def try_process_ngram_file_def Let_def u k pl
          del: process_lines.simps)
  have both: "keyword_test ''policy uncertainty'' ''economic policy uncertainty'' \<and>
              keyword_test ''economic policy'' ''economic policy uncertainty''"
    by code_simp
  from one_keyword_per_mention [of ?w ?s ?d] ev
  have "\<exists>kw. m_keywords ?m = [kw]" by simp
  with ev both show ?thesis by simp
qed


subsection \<open>A fetch that fails\<close>

text \<open>
  C6. For a streamer over an HTTP base URL: when the request for a time stamp raises a
  transport error, or is answered with a status other than 200, the scanner returns
  the empty list of mentions and the empty counter. The body of its \<open>try\<close> ends in the
  request exception, which the handler turns into the empty result, or in the early
  return; no exception leaves the scanner.
\<close>

theorem fetch_failure_empty:
  assumes "prefix ''http'' (s_base_url self)"
    and "requests_get w (get_ngrams_url_for_date w self date_time) = RequestException \<or>
         (\<exists>status_code content.
            requests_get w (get_ngrams_url_for_date w self date_time) = Response status_code content \<and>
            status_code \<noteq> 200)"
  shows "(try_process_ngram_file w self date_time = Inl RequestError \<or>
          try_process_ngram_file w self date_time = Inr None) \<and>
         process_ngram_file w self date_time = ([], [])"
proof -
  from assms(1) have http: "prefix ''http'' (get_ngrams_url_for_date w self date_time)"
    by (simp add: get_ngrams_url_for_date_def)
  from assms(2) show ?thesis
  proof
    assume "requests_get w (get_ngrams_url_for_date w self date_time) = RequestException"
    with http show ?thesis
      by (simp add: process_ngram_file_def try_process_ngram_file_def)
  next
    assume "\<exists>status_code content.
            requests_get w (get_ngrams_url_for_date w self date_time) = Response status_code content \<and>
            status_code \<noteq> 200"
    with http show ?thesis
      by (auto simp: process_ngram_file_def try_process_ngram_file_def)
  qed
qed

theorem fetch_failure_empty_witness:
  "process_ngram_file
     \<lparr> strftime = (\<lambda>d. ''20240101000100.webngrams.json.gz''),
       requests_get = (\<lambda>u. RequestException), open_rb = (\<lambda>p. OSError) \<rparr>
     (init None None GDELT_BASE_URL)
     \<lparr> ordinal = 738886, hour = 0, minute = 1, second = 0, microsecond = 0 \<rparr> = ([], []) \<and>
   process_ngram_file
     \<lparr> strftime = (\<lambda>d. ''20240101000100.webngrams.json.gz''),
       requests_get = (\<lambda>u. Response 404 (Lines
          [Object [''lang'' \<mapsto> JStr ''en'', ''url'' \<mapsto> JStr ''http://example.com/a'',
                   ''ngram'' \<mapsto> JStr ''uncertainty'']])),
       open_rb = (\<lambda>p. OSError) \<rparr>
     (init None None GDELT_BASE_URL)
     \<lparr> ordinal = 738886, hour = 0, minute = 1, second = 0, microsecond = 0 \<rparr> = ([], [])"
proof -
  have p: "prefix ''http'' (s_base_url (init None None GDELT_BASE_URL))"
    by code_simp
  show ?thesis
    by (intro conjI fetch_failure_empty [OF p, THEN conjunct2]) simp_all
qed

subsection \<open>Lines that are skipped\<close>

lemma emit_mention_never_before:
  "fst (snd (emit_mention kws record u d ngram mk st)) \<noteq> fst st"
  by (simp add: emit_mention_mentions)

lemma scan_ngram_unchanged:
  assumes "fst (snd (scan_ngram kws record u d st0)) = fst st0"
  shows "scan_ngram kws record u d st = (fst (scan_ngram kws record u d st0), st)"
proof (cases "get record ''ngram''")
  case (JNonStr r t)
  then show ?thesis by (simp add: scan_ngram_def)
next
  case (JStr g)
  show ?thesis
  proof (cases "match_keywords kws (lower g) = []")
    case True
    with JStr show ?thesis by (simp add: scan_ngram_def)
  next
    case False
    with JStr assms emit_mention_never_before show ?thesis
      by (simp add: scan_ngram_def Let_def)
  qed
qed

lemma process_record_unchanged:
  assumes "fst (snd (process_record kws record st0)) = fst st0"
  shows "process_record kws record st = (fst (process_record kws record st0), st)"
proof -
  have "get record ''lang'' \<noteq> JStr ''en'' \<or>
        (\<exists>r t. get record ''url'' = JNonStr r t) \<or> get record ''url'' = JStr [] \<or>
        (\<exists>u d. get record ''lang'' = JStr ''en'' \<and> get record ''url'' = JStr u \<and> u \<noteq> [] \<and>
           extract_domain u = Inr d)"
    using extract_domain_Inr by (cases "get record ''url''") auto
  then show ?thesis
  proof (elim disjE exE conjE)
    fix u d
    assume a: "get record ''lang'' = JStr ''en''" "get record ''url'' = JStr u" "u \<noteq> []"
      "extract_domain u = Inr d"
    then have eq: "\<And>s. process_record kws record s = scan_ngram kws record u d s"
      by (simp add: process_record_def)
    from assms show ?thesis unfolding eq by (rule scan_ngram_unchanged)
  qed (simp_all add: process_record_def)
qed

lemma process_line_unchanged:
  assumes "fst (snd (process_line kws l st0)) = fst st0"
  shows "process_line kws l st = (fst (process_line kws l st0), st)"
proof (cases l)
  case (Object r)
  with assms process_record_unchanged [of kws r st0 st] show ?thesis
    by (simp add: process_line_def)
qed (simp_all add: process_line_def)

lemma raises_before_mention_skip:
  "raises_before_mention kws l \<Longrightarrow> snd (process_line kws l st) = st"
  using process_line_unchanged [of kws l "([], [])" st]
  by (simp add: raises_before_mention_def)

lemma raises_before_mention_iff:
  "raises_before_mention kws l \<longleftrightarrow>
     (case l of
        NotJSON \<Rightarrow> True
      | NotObject \<Rightarrow> True
      | Object record \<Rightarrow>
          get record ''lang'' = JStr ''en'' \<and>
          (case get record ''url'' of
             JNonStr r t \<Rightarrow> t
           | JStr u \<Rightarrow> u \<noteq> [] \<and> (case get record ''ngram'' of JNonStr r t \<Rightarrow> True | JStr g \<Rightarrow> False)))"
proof (cases l)
  case (Object r)
  show ?thesis
  proof (cases "get r ''url''")
    case (JNonStr x t)
    then show ?thesis
      by (simp add: Object raises_before_mention_def process_line_def process_record_def)
  next
    case (JStr u)
    obtain d where "extract_domain u = Inr d" using extract_domain_Inr by blast
    with JStr show ?thesis
      by (auto simp: Object raises_before_mention_def process_line_def process_record_def
            scan_ngram_def Let_def emit_mention_mentions split: jval.splits)
  qed
qed (simp_all add: raises_before_mention_def process_line_def)


text \<open>
  A line that is not valid JSON, and a record on which the body raises before it has
  appended a mention (a line that is no object, a \<open>url\<close> that is not a string and not
  empty, an \<open>ngram\<close> that is not a string), leaves both accumulators as they were, and
  the loop goes on: the result over a stream is the result over the stream without
  these lines. No line that raises, early or late, changes the counter.
\<close>

lemma raising_line_keeps_counter:
  assumes "fst (process_line kws l st) \<noteq> None"
  shows "snd (snd (process_line kws l st)) = snd st"
proof (cases l)
  case (Object r)
  have e: "\<And>u d ngram mk. fst (emit_mention kws r u d ngram mk st) \<noteq> None \<Longrightarrow>
             snd (snd (emit_mention kws r u d ngram mk st)) = snd st"
    by (auto simp: emit_mention_def Let_def split: jval.splits if_splits)
  have s: "\<And>u d. fst (scan_ngram kws r u d st) \<noteq> None \<Longrightarrow>
             snd (snd (scan_ngram kws r u d st)) = snd st"
    using e by (auto simp: scan_ngram_def Let_def split: jval.splits if_splits)
  from assms s show ?thesis
    by (auto simp: Object process_line_def process_record_def split: jval.splits sum.splits if_splits)
qed (simp_all add: process_line_def)

lemma bad_lines_skipped:
  "process_lines kws ls st =
     process_lines kws (filter (\<lambda>l. \<not> raises_before_mention kws l) ls) st"
proof (induction ls arbitrary: st)
  case Nil
  show ?case by simp
next
  case (Cons l ls)
  show ?case
  proof (cases "raises_before_mention kws l")
    case True
    then show ?thesis by (simp add: raises_before_mention_skip Cons.IH)
  next
    case False
    then show ?thesis by (simp add: Cons.IH)
  qed
qed

lemma bad_lines_skipped_example:
  "process_lines [''uncertainty'']
     [NotJSON,
      Object [''lang'' \<mapsto> JStr ''en'', ''url'' \<mapsto> JStr ''http://example.com/a'',
              ''ngram'' \<mapsto> JStr ''uncertainty''],
      NotObject,
      Object [''lang'' \<mapsto> JStr ''en'', ''url'' \<mapsto> JStr ''http://example.com/b'',
              ''ngram'' \<mapsto> JNull]] ([], []) =
   process_lines [''uncertainty'']
     [Object [''lang'' \<mapsto> JStr ''en'', ''url'' \<mapsto> JStr ''http://example.com/a'',
              ''ngram'' \<mapsto> JStr ''uncertainty'']] ([], [])"
proof -
  let ?good = "Object [''lang'' \<mapsto> JStr ''en'', ''url'' \<mapsto> JStr ''http://example.com/a'',
              ''ngram'' \<mapsto> JStr ''uncertainty'']"
  let ?bad = "Object [''lang'' \<mapsto> JStr ''en'', ''url'' \<mapsto> JStr ''http://example.com/b'',
              ''ngram'' \<mapsto> JNull]"
  have 1: "raises_before_mention [''uncertainty''] NotJSON"
    by (simp add: raises_before_mention_iff)
  have 2: "raises_before_mention [''uncertainty''] NotObject"
    by (simp add: raises_before_mention_iff)
  have 3: "raises_before_mention [''uncertainty''] ?bad"
    by (simp add: raises_before_mention_iff get_def JNull_def)
  have 4: "\<not> raises_before_mention [''uncertainty''] ?good"
    by (simp add: raises_before_mention_iff get_def)
  from bad_lines_skipped [of "[''uncertainty'']" "[NotJSON, ?good, NotObject, ?bad]" "([], [])"]
  show ?thesis
    by (simp add: 1 2 3 4 del: process_lines.simps)
qed


text \<open>
  C7 at a record that raises late. A matched record whose \<open>pre\<close> is \<open>null\<close> and whose
  \<open>post\<close> is a string has its mention appended, with the context built from
  \<open>str(None)\<close>, and only then raises at \<open>pre.split()\<close>. The handler gives the record
  up and goes on to the next line, as it does for every other record that raises, but
  the mention appended before stays: the stream of this one line gives one mention,
  where the stream without the line gives none.
\<close>

theorem late_raise_keeps_mention:
  "fst (process_line [''uncertainty'']
          (Object [''lang'' \<mapsto> JStr ''en'', ''url'' \<mapsto> JStr ''http://example.com/a'',
                   ''ngram'' \<mapsto> JStr ''uncertainty'', ''pre'' \<mapsto> JNull,
                   ''post'' \<mapsto> JStr ''for markets'']) ([], [])) = Some OtherException \<and>
   process_lines [''uncertainty'']
     [Object [''lang'' \<mapsto> JStr ''en'', ''url'' \<mapsto> JStr ''http://example.com/a'',
              ''ngram'' \<mapsto> JStr ''uncertainty'', ''pre'' \<mapsto> JNull,
              ''post'' \<mapsto> JStr ''for markets'']] ([], []) =
     ([\<lparr> m_date = JStr [], m_url = ''http://example.com/a'', m_domain = ''example.com'',
         m_keywords = [''uncertainty''], m_context = ''None uncertainty for markets'',
         m_ngram = ''uncertainty'' \<rparr>], []) \<and>
   process_lines [''uncertainty''] [] ([], []) = ([], []) \<and>
   process_lines [''uncertainty'']
     [Object [''lang'' \<mapsto> JStr ''en'', ''url'' \<mapsto> JStr ''http://example.com/a'',
              ''ngram'' \<mapsto> JStr ''uncertainty'', ''pre'' \<mapsto> JNull,
              ''post'' \<mapsto> JStr ''for markets'']] ([], []) \<noteq>
     process_lines [''uncertainty''] [] ([], [])"
  by code_simp


section \<open>Properties of counters\<close>

lemma map_of_dict_set: "map_of (dict_set d k v) = (map_of d)(k \<mapsto> v)"
  by (induction d k v rule: dict_set.induct) (auto simp: fun_eq_iff)

lemma keys_dict_set: "fst ` set (dict_set d k v) = insert k (fst ` set d)"
  by (induction d k v rule: dict_set.induct) auto

lemma distinct_dict_set: "distinct (map fst d) \<Longrightarrow> distinct (map fst (dict_set d k v))"
proof (induction d k v rule: dict_set.induct)
  case (1 k v)
  then show ?case by simp
next
  case (2 k' v' d k v)
  then show ?case using keys_dict_set [of d k v] by (auto simp: image_iff)
qed

lemma counter_get_dict_set:
  "counter_get (dict_set d k v) w = (if w = k then v else counter_get d w)"
  by (simp add: counter_get_def map_of_dict_set)

lemma counter_get_counter_add:
  "counter_get (counter_add c k n) w = counter_get c w + (if w = k then n else 0)"
  by (simp add: counter_add_def counter_get_dict_set)

lemma keys_counter_add: "fst ` set (counter_add c k n) = insert k (fst ` set c)"
  by (simp add: counter_add_def keys_dict_set)

lemma distinct_counter_add: "distinct (map fst c) \<Longrightarrow> distinct (map fst (counter_add c k n))"
  by (simp add: counter_add_def distinct_dict_set)

lemma counter_get_update_counts:
  "counter_get (update_counts c m) w = counter_get c w + (\<Sum>(k, n)\<leftarrow>m. if k = w then n else 0)"
  unfolding update_counts_def
proof (induction m arbitrary: c)
  case Nil
  show ?case by simp
next
  case (Cons p m)
  obtain k n where p: "p = (k, n)" by (cases p)
  show ?case by (auto simp: p Cons.IH counter_get_counter_add)
qed

lemma keys_update_counts: "fst ` set (update_counts c m) = fst ` set c \<union> fst ` set m"
  unfolding update_counts_def
proof (induction m arbitrary: c)
  case Nil
  show ?case by simp
next
  case (Cons p m)
  obtain k n where p: "p = (k, n)" by (cases p)
  show ?case by (auto simp: p Cons.IH keys_counter_add)
qed

lemma distinct_update_counts:
  "distinct (map fst c) \<Longrightarrow> distinct (map fst (update_counts c m))"
  unfolding update_counts_def
proof (induction m arbitrary: c)
  case Nil
  then show ?case by simp
next
  case (Cons p m)
  obtain k n where p: "p = (k, n)" by (cases p)
  from Cons.prems show ?case by (simp add: p Cons.IH distinct_counter_add)
qed

lemma sum_distinct_keys:
  "distinct (map fst m) \<Longrightarrow> (\<Sum>(k, n)\<leftarrow>m. if k = w then n else 0) = counter_get m w"
proof (induction m)
  case Nil
  show ?case by (simp add: counter_get_def)
next
  case (Cons p m)
  obtain k n where p: "p = (k, n)" by (cases p)
  from Cons.prems have d: "distinct (map fst m)" and nk: "k \<notin> fst ` set m" by (auto simp: p)
  show ?case
  proof (cases "k = w")
    case True
    with nk have "map_of m w = None" by (simp add: map_of_eq_None_iff)
    then have "counter_get m w = 0" by (simp add: counter_get_def)
    with True show ?thesis by (simp add: p Cons.IH [OF d] counter_get_def)
  next
    case False
    then show ?thesis by (simp add: p Cons.IH [OF d] counter_get_def)
  qed
qed

lemma map_of_fold_dict_set:
  "map_of (fold (\<lambda>(k, v) d. dict_set d k v) ps d0) = map_of d0 ++ map_of (rev ps)"
proof (induction ps arbitrary: d0)
  case Nil
  show ?case by simp
next
  case (Cons p ps)
  obtain k v where p: "p = (k, v)" by (cases p)
  show ?case
    by (auto simp: p Cons.IH map_of_dict_set fun_eq_iff map_add_def split: option.splits)
qed

lemma distinct_fold_dict_set:
  "distinct (map fst d0) \<Longrightarrow> distinct (map fst (fold (\<lambda>(k, v) d. dict_set d k v) ps d0))"
proof (induction ps arbitrary: d0)
  case Nil
  then show ?case by simp
next
  case (Cons p ps)
  obtain k v where p: "p = (k, v)" by (cases p)
  from Cons.prems show ?case by (simp add: p Cons.IH distinct_dict_set)
qed

lemma keys_fold_dict_set:
  "fst ` set (fold (\<lambda>(k, v) d. dict_set d k v) ps d0) = fst ` set d0 \<union> fst ` set ps"
proof (induction ps arbitrary: d0)
  case Nil
  show ?case by simp
next
  case (Cons p ps)
  obtain k v where p: "p = (k, v)" by (cases p)
  show ?case by (auto simp: p Cons.IH keys_dict_set)
qed

lemma map_of_dict_of_items: "map_of (dict_of_items ps) = map_of (rev ps)"
  by (simp add: dict_of_items_def map_of_fold_dict_set)

lemma distinct_dict_of_items: "distinct (map fst (dict_of_items ps))"
  by (simp add: dict_of_items_def distinct_fold_dict_set)

lemma keys_dict_of_items: "fst ` set (dict_of_items ps) = fst ` set ps"
  by (simp add: dict_of_items_def keys_fold_dict_set)

lemma counter_get_dict_of_items:
  "counter_get (dict_of_items ps) w = (case map_of (rev ps) w of None \<Rightarrow> 0 | Some v \<Rightarrow> v)"
  by (simp add: counter_get_def map_of_dict_of_items)

lemma counter_get_add_files:
  "counter_get (add_files fs c) w =
     counter_get c w + (\<Sum>rows\<leftarrow>readable fs. case map_of (rev rows) w of None \<Rightarrow> 0 | Some v \<Rightarrow> v)"
proof (induction fs c rule: add_files.induct)
  case (3 rows fs word_counts)
  then show ?case
    by (simp add: counter_get_update_counts sum_distinct_keys distinct_dict_of_items
          counter_get_dict_of_items)
qed simp_all

lemma keys_add_files:
  "fst ` set (add_files fs c) = fst ` set c \<union> fst ` (\<Union>rows \<in> set (readable fs). set rows)"
proof (induction fs c rule: add_files.induct)
  case (3 rows fs word_counts)
  then show ?case
    by (simp add: keys_update_counts keys_dict_of_items image_Un Un_assoc)
qed simp_all

lemma distinct_add_files: "distinct (map fst c) \<Longrightarrow> distinct (map fst (add_files fs c))"
  by (induction fs c rule: add_files.induct) (simp_all add: distinct_update_counts)

lemma map_of_sort_descending:
  assumes "distinct (map fst c)"
  shows "map_of (sort_descending c) = map_of c"
proof -
  have "distinct (map fst (sort_descending c))"
    using assms by (simp add: sort_descending_def distinct_map)
  moreover have "set (sort_descending c) = set c" by (simp add: sort_descending_def)
  ultimately show ?thesis using assms by (simp add: map_of_inject_set)
qed

lemma distinct_sort_descending:
  "distinct (map fst c) \<Longrightarrow> distinct (map fst (sort_descending c))"
  by (simp add: sort_descending_def distinct_map)

lemma sorted_sort_descending: "sorted_wrt (\<ge>) (map snd (sort_descending c))"
proof -
  have "sorted (map (\<lambda>(w, n). - n) (sort_descending c))"
    unfolding sort_descending_def by (rule sorted_sort_key)
  then have "sorted_wrt (\<lambda>x y. (case x of (w, n) \<Rightarrow> - n) \<le> (case y of (w, n) \<Rightarrow> - n)) (sort_descending c)"
    by (simp add: sorted_wrt_map)
  then have "sorted_wrt (\<lambda>x y. snd x \<ge> snd y) (sort_descending c)"
    by (rule sorted_wrt_mono_rel [rotated]) auto
  then show ?thesis by (simp add: sorted_wrt_map)
qed

lemma map_of_key_iff: "map_of c w \<noteq> None \<longleftrightarrow> w \<in> fst ` set c"
  by (simp add: map_of_eq_None_iff)

section \<open>Properties of the aggregator\<close>

subsection \<open>Word counts\<close>

lemma map_of_counter_get:
  "map_of c w = (if w \<in> fst ` set c then Some (counter_get c w) else None)"
proof (cases "map_of c w")
  case None
  then show ?thesis by (simp add: map_of_eq_None_iff)
next
  case (Some v)
  then have "w \<in> fst ` set c" by (metis map_of_eq_None_iff option.distinct(1))
  with Some show ?thesis by (simp add: counter_get_def)
qed

lemma aggregated_counts:
  assumes "out = (if fs = [] then []
                  else (let word_counts = add_files fs [] in
                          if word_counts = [] then [] else sort_descending word_counts))"
  shows "map_of out w =
           (if w \<in> fst ` (\<Union>rows \<in> set (readable fs). set rows)
            then Some (\<Sum>rows\<leftarrow>readable fs. case map_of (rev rows) w of None \<Rightarrow> 0 | Some v \<Rightarrow> v)
            else None)"
    and "distinct (map fst out)"
    and "sorted_wrt (\<ge>) (map snd out)"
proof -
  have d: "distinct (map fst (add_files fs []))" by (simp add: distinct_add_files)
  have z: "counter_get [] w = 0" by (simp add: counter_get_def)
  have out: "out = sort_descending (add_files fs [])"
  proof (cases "fs = []")
    case True
    with assms show ?thesis by (simp add: sort_descending_def)
  next
    case False
    with assms show ?thesis by (simp add: Let_def sort_descending_def)
  qed
  have "map_of out w = map_of (add_files fs []) w"
    unfolding out by (simp add: map_of_sort_descending [OF d])
  also have "\<dots> = (if w \<in> fst ` set (add_files fs [])
                     then Some (counter_get (add_files fs []) w) else None)"
    by (rule map_of_counter_get)
  also have "\<dots> = (if w \<in> fst ` (\<Union>rows \<in> set (readable fs). set rows)
            then Some (\<Sum>rows\<leftarrow>readable fs. case map_of (rev rows) w of None \<Rightarrow> 0 | Some v \<Rightarrow> v)
            else None)"
    using z by (simp add: keys_add_files counter_get_add_files)
  finally show "map_of out w =
           (if w \<in> fst ` (\<Union>rows \<in> set (readable fs). set rows)
            then Some (\<Sum>rows\<leftarrow>readable fs. case map_of (rev rows) w of None \<Rightarrow> 0 | Some v \<Rightarrow> v)
            else None)" .
  show "distinct (map fst out)" unfolding out using d by (rule distinct_sort_descending)
  show "sorted_wrt (\<ge>) (map snd out)" unfolding out by (rule sorted_sort_descending)
qed








text \<open>
  C10. In the word cloud, of several entries of one file with the same \<open>text\<close> only the
  last one's \<open>value\<close> counts, the values of a word from different files are summed, a
  word is in the output exactly when some file read has it, once, and the output is
  sorted by value, largest first.
\<close>

theorem wordcloud_aggregation:
  "map_of (aggregate_wordcloud wordcloud_files) w =
     (if w \<in> fst ` (\<Union>data \<in> set (readable wordcloud_files). set data)
      then Some (\<Sum>data\<leftarrow>readable wordcloud_files.
                   case map_of (rev data) w of None \<Rightarrow> 0 | Some v \<Rightarrow> v)
      else None) \<and>
   distinct (map fst (aggregate_wordcloud wordcloud_files)) \<and>
   sorted_wrt (\<ge>) (map snd (aggregate_wordcloud wordcloud_files))"
proof -
  note agg = aggregate_wordcloud_def [of wordcloud_files]
  from aggregated_counts(1) [OF agg, of w] aggregated_counts(2) [OF agg]
    aggregated_counts(3) [OF agg]
  show ?thesis by (intro conjI)
qed

theorem wordcloud_aggregation_witness:
  "aggregate_wordcloud
     [Table [(''risk'', 1), (''risk'', 4), (''trade'', 2)], Unreadable, Table [(''risk'', 3)]] =
     [(''risk'', 7), (''trade'', 2)] \<and>
   map_of (aggregate_wordcloud
     [Table [(''risk'', 1), (''risk'', 4), (''trade'', 2)], Unreadable, Table [(''risk'', 3)]])
     ''risk'' = Some (4 + 3)"
proof -
  let ?fs = "[Table [(''risk'', 1), (''risk'', 4), (''trade'', 2)], Unreadable,
              Table [(''risk'', 3 :: int)]]"
  have 1: "aggregate_wordcloud ?fs = [(''risk'', 7), (''trade'', 2)]" by code_simp
  from wordcloud_aggregation [of ?fs "''risk''"]
  have 2: "map_of (aggregate_wordcloud ?fs) ''risk'' = Some (4 + 3)" by simp
  from 1 2 show ?thesis by blast
qed


subsection \<open>Mentions\<close>










section \<open>Properties of the date-range driver\<close>

lemma dt_le_same_time:
  assumes "(hour c, minute c, second c, microsecond c) \<le> (hour e, minute e, second e, microsecond e)"
  shows "dt_le c e \<longleftrightarrow> ordinal c \<le> ordinal e"
  using assms by (auto simp: dt_le_def less_eq_prod_def less_prod_def)

lemma date_loop_run:
  assumes "(hour c, minute c, second c, microsecond c) \<le> (hour e, minute e, second e, microsecond e)"
    and "ordinal e < MAXORDINAL"
  shows "date_loop scan e c (ms, ts, calls) =
     (let days = map (\<lambda>n. \<lparr> ordinal = n, hour = 0, minute = 1, second = 0, microsecond = 0 \<rparr>)
                     [ordinal c ..< Suc (ordinal e)]
      in Inr (ms @ concat (map (\<lambda>d. fst (scan d)) days),
              fold (\<lambda>d t. update_counts t (snd (scan d))) days ts,
              calls @ days))"
  using assms
proof (induction "Suc (ordinal e) - ordinal c" arbitrary: c ms ts calls)
  case 0
  then have "\<not> ordinal c \<le> ordinal e" by simp
  with 0 have "\<not> dt_le c e" by (simp add: dt_le_same_time)
  moreover from 0 have "[ordinal c ..< Suc (ordinal e)] = []" by simp
  ultimately show ?case by (subst date_loop.simps) simp
next
  case (Suc n)
  then have le: "ordinal c \<le> ordinal e" by simp
  with Suc have dl: "dt_le c e" by (simp add: dt_le_same_time)
  from le Suc.prems have ad: "add_days c 1 = Inr (c\<lparr>ordinal := Suc (ordinal c)\<rparr>)"
    by (simp add: add_days_def)
  let ?c' = "c\<lparr>ordinal := Suc (ordinal c)\<rparr>"
  let ?d = "c\<lparr>hour := 0, minute := 1, second := 0, microsecond := 0\<rparr>"
  have d: "?d = \<lparr> ordinal = ordinal c, hour = 0, minute = 1, second = 0, microsecond = 0 \<rparr>"
    by simp
  have upt: "[ordinal c ..< Suc (ordinal e)] = ordinal c # [ordinal ?c' ..< Suc (ordinal e)]"
    using le by (simp add: upt_conv_Cons)
  have n: "n = Suc (ordinal e) - ordinal ?c'" using Suc.hyps(2) by simp
  have tod: "(hour ?c', minute ?c', second ?c', microsecond ?c') \<le>
             (hour e, minute e, second e, microsecond e)"
    using Suc.prems(1) by simp
  note IH = Suc.hyps(1) [OF n tod Suc.prems(2)]
  show ?case
    apply (subst date_loop.simps)
    apply (simp only: dl if_True Let_def ad sum.case split_beta IH)
    apply (simp only: upt d)
    apply simp
    done
qed

lemma distinct_update_words: "distinct (map fst c) \<Longrightarrow> distinct (map fst (update_words c ws))"
  unfolding update_words_def
  by (induction ws arbitrary: c) (simp_all add: distinct_counter_add)

lemma distinct_process_line:
  assumes "distinct (map fst (snd st))"
  shows "distinct (map fst (snd (snd (process_line kws l st))))"
proof (cases l)
  case (Object r)
  have e: "\<And>u d ngram mk. distinct (map fst (snd (snd (emit_mention kws r u d ngram mk st))))"
    using assms
    by (auto simp: emit_mention_def Let_def distinct_update_words split: jval.splits)
  have s: "\<And>u d. distinct (map fst (snd (snd (scan_ngram kws r u d st))))"
    using assms e by (auto simp: scan_ngram_def Let_def split: jval.splits)
  show ?thesis
    using assms s
    by (auto simp: Object process_line_def process_record_def split: jval.splits sum.splits)
qed (use assms in \<open>simp_all add: process_line_def\<close>)

lemma distinct_process_lines:
  "distinct (map fst (snd st)) \<Longrightarrow> distinct (map fst (snd (process_lines kws ls st)))"
  by (induction ls arbitrary: st) (simp_all add: distinct_process_line)

lemma distinct_process_ngram_file:
  "distinct (map fst (snd (process_ngram_file w self date_time)))"
proof -
  have "\<And>ls. distinct (map fst (snd (process_lines (s_keywords self) ls ([], []))))"
    by (rule distinct_process_lines) simp
  then show ?thesis
    unfolding process_ngram_file_def try_process_ngram_file_def Let_def
    by (auto split: http_result.splits file_result.splits gzip_stream.splits)
qed

lemma counter_get_fold_update_counts:
  assumes "\<forall>d \<in> set days. distinct (map fst (snd (scan d)))"
  shows "counter_get (fold (\<lambda>d t. update_counts t (snd (scan d))) days ts) w =
           counter_get ts w + (\<Sum>d\<leftarrow>days. counter_get (snd (scan d)) w)"
  using assms
proof (induction days arbitrary: ts)
  case Nil
  show ?case by simp
next
  case (Cons d days)
  then show ?case
    by (simp add: counter_get_update_counts sum_distinct_keys)
qed

lemma process_date_range_aligned:
  assumes "(hour s, minute s, second s, microsecond s) \<le> (hour e, minute e, second e, microsecond e)"
    and "ordinal e < MAXORDINAL"
    and "days = map (\<lambda>n. \<lparr> ordinal = n, hour = 0, minute = 1, second = 0, microsecond = 0 \<rparr>)
                    [ordinal s ..< Suc (ordinal e)]"
  shows "\<exists>all_mentions all_terms.
           process_date_range w self s e = Inr (all_mentions, all_terms, days) \<and>
           all_mentions = concat (map (\<lambda>d. fst (process_ngram_file w self d)) days) \<and>
           (\<forall>word. counter_get all_terms word =
                      (\<Sum>d\<leftarrow>days. counter_get (snd (process_ngram_file w self d)) word))"
proof -
  have z: "\<And>word. counter_get [] word = 0" by (simp add: counter_get_def)
  have "process_date_range w self s e =
          Inr (concat (map (\<lambda>d. fst (process_ngram_file w self d)) days),
               fold (\<lambda>d t. update_counts t (snd (process_ngram_file w self d))) days [],
               days)"
    unfolding process_date_range_def date_loop_run [OF assms(1,2)] assms(3) Let_def by simp
  moreover have "\<forall>word. counter_get (fold (\<lambda>d t. update_counts t (snd (process_ngram_file w self d))) days []) word =
      (\<Sum>d\<leftarrow>days. counter_get (snd (process_ngram_file w self d)) word)"
    by (simp add: counter_get_fold_update_counts distinct_process_ngram_file z)
  ultimately show ?thesis by blast
qed

lemma date_loop_overflow:
  assumes "ordinal c = MAXORDINAL" and "dt_le c e"
  shows "date_loop scan e c st = Inl OverflowError"
proof -
  obtain ms ts calls where st: "st = (ms, ts, calls)" by (cases st)
  from assms(1) have "add_days c 1 = Inl OverflowError" by (simp add: add_days_def)
  with assms(2) show ?thesis
    unfolding st by (subst date_loop.simps) (simp add: Let_def split_beta)
qed


text \<open>
  C4 at a start and an end whose times of day are not in order. From 2024-01-01 12:00
  (ordinal 738886) to 2024-01-02 06:00 the start is not after the end, but the loop
  compares whole time stamps: after the first day \<open>current_date\<close> is 2024-01-02 12:00,
  which is after the end, so the scanner is called once, for 2024-01-01 00:01, and the
  end date, which the docstring calls inclusive, is never scanned.
  \<open>process_date_range_aligned\<close> above gives the claimed behaviour when the time of day
  of the start is not after that of the end, as for the midnight values the command
  line passes.
\<close>

theorem end_day_not_scanned:
  "dt_le \<lparr> ordinal = 738886, hour = 12, minute = 0, second = 0, microsecond = 0 \<rparr>
         \<lparr> ordinal = 738887, hour = 6, minute = 0, second = 0, microsecond = 0 \<rparr> \<and>
   process_date_range w self
       \<lparr> ordinal = 738886, hour = 12, minute = 0, second = 0, microsecond = 0 \<rparr>
       \<lparr> ordinal = 738887, hour = 6, minute = 0, second = 0, microsecond = 0 \<rparr> =
     Inr (fst (process_ngram_file w self
                 \<lparr> ordinal = 738886, hour = 0, minute = 1, second = 0, microsecond = 0 \<rparr>),
          update_counts [] (snd (process_ngram_file w self
                 \<lparr> ordinal = 738886, hour = 0, minute = 1, second = 0, microsecond = 0 \<rparr>)),
          [\<lparr> ordinal = 738886, hour = 0, minute = 1, second = 0, microsecond = 0 \<rparr>])"
proof -
  let ?s = "\<lparr> ordinal = 738886, hour = 12, minute = 0, second = 0, microsecond = 0 \<rparr>"
  let ?s' = "\<lparr> ordinal = 738887, hour = 12, minute = 0, second = 0, microsecond = 0 \<rparr>"
  let ?e = "\<lparr> ordinal = 738887, hour = 6, minute = 0, second = 0, microsecond = 0 \<rparr>"
  have 1: "dt_le ?s ?e" by (simp add: dt_le_def less_eq_prod_def less_prod_def)
  have 2: "\<not> dt_le ?s' ?e" by (simp add: dt_le_def less_eq_prod_def less_prod_def)
  have 3: "add_days ?s (Suc 0) = Inr ?s'" by (simp add: add_days_def MAXORDINAL_def)
  have 4: "\<And>st. date_loop (process_ngram_file w self) ?e ?s' st = Inr st"
  proof -
    fix st :: range_state
    obtain ms ts calls where st: "st = (ms, ts, calls)" by (cases st)
    show "date_loop (process_ngram_file w self) ?e ?s' st = Inr st"
      unfolding st using 2 by (subst date_loop.simps) simp
  qed
  have "process_date_range w self ?s ?e =
     Inr (fst (process_ngram_file w self
                 \<lparr> ordinal = 738886, hour = 0, minute = 1, second = 0, microsecond = 0 \<rparr>),
          update_counts [] (snd (process_ngram_file w self
                 \<lparr> ordinal = 738886, hour = 0, minute = 1, second = 0, microsecond = 0 \<rparr>)),
          [\<lparr> ordinal = 738886, hour = 0, minute = 1, second = 0, microsecond = 0 \<rparr>])"
    unfolding process_date_range_def
    by (subst date_loop.simps) (simp add: 1 3 4 Let_def split_beta)
  with 1 show ?thesis by blast
qed

end
